theory Spec2Isabelle
  imports Main "HOL-Library.Word" "HOL-Library.AList"
begin

section \<open>JavaScript values and strings\<close>

text \<open>
  A JavaScript string is a sequence of UTF-16 code units. The source reads strings in two
  ways: \<^verbatim>\<open>for (const char of s)\<close> walks code points (a surrogate pair is one
  two-unit string), while \<^verbatim>\<open>s[i]\<close> and \<^verbatim>\<open>s.length\<close> work on code units.
  Both are modelled. Keys of a node's children map are strings.
\<close>

type_synonym jsstring = "16 word list"

datatype jsval = JUndefined | JNull | JBool bool | JNum int | JObject | JStr jsstring

fun truthy :: "jsval \<Rightarrow> bool" where
  "truthy JUndefined = False"
| "truthy JNull = False"
| "truthy (JBool b) = b"
| "truthy (JNum n) = (n \<noteq> 0)"
| "truthy JObject = True"
| "truthy (JStr s) = (s \<noteq> [])"

fun typeof :: "jsval \<Rightarrow> string" where
  "typeof JUndefined = ''undefined''"
| "typeof JNull = ''object''"
| "typeof (JBool b) = ''boolean''"
| "typeof (JNum n) = ''number''"
| "typeof JObject = ''object''"
| "typeof (JStr s) = ''string''"

definition isHighSurrogate :: "16 word \<Rightarrow> bool" where
  "isHighSurrogate u = (0xD800 \<le> u \<and> u \<le> 0xDBFF)"

definition isLowSurrogate :: "16 word \<Rightarrow> bool" where
  "isLowSurrogate u = (0xDC00 \<le> u \<and> u \<le> 0xDFFF)"

text \<open>The string iterator behind \<^verbatim>\<open>for (const char of s)\<close>.\<close>

fun codePoints :: "jsstring \<Rightarrow> jsstring list" where
  "codePoints [] = []"
| "codePoints [u] = [[u]]"
| "codePoints (u # v # rest) =
     (if isHighSurrogate u \<and> isLowSurrogate v
      then [u, v] # codePoints rest
      else [u] # codePoints (v # rest))"

text \<open>\<^verbatim>\<open>s[i]\<close>: the one-unit string at index i, undefined (None) out of range.\<close>

definition charAt :: "jsstring \<Rightarrow> nat \<Rightarrow> jsstring option" where
  "charAt s i = (if i < length s then Some [s ! i] else None)"

section \<open>TrieNode and Trie\<close>

text \<open>
  The children Map keeps insertion order (the export reads it in that order), so it is an
  association list: \<^verbatim>\<open>has\<close>/\<^verbatim>\<open>get\<close> are \<^const>\<open>map_of\<close>, \<^verbatim>\<open>set\<close> is
  \<^const>\<open>AList.update\<close> (replace in place, else append), \<^verbatim>\<open>delete\<close> is
  \<^const>\<open>AList.delete\<close>, \<^verbatim>\<open>size\<close> is the length. The counters are JavaScript numbers
  holding integers; they are modelled as unbounded integers.
\<close>

datatype TrieNode =
  TrieNode (value': jsstring) (isEndOfWord: bool) (frequency: int)
           (children: "(jsstring \<times> TrieNode) list")

definition newTrieNode :: "jsstring \<Rightarrow> TrieNode" where
  "newTrieNode v = TrieNode v False 0 []"

record Trie =
  root :: TrieNode
  wordCount :: int

definition newTrie :: Trie where
  "newTrie = \<lparr> root = newTrieNode [], wordCount = 0 \<rparr>"

datatype error = InvalidInput | TypeError

section \<open>The Trie of App.jsx\<close>

text \<open>
  \<^verbatim>\<open>String.prototype.toLowerCase\<close> belongs to the host, not to the repository; it is the
  parameter \<open>lc\<close> of every operation.

  The loop of \<^verbatim>\<open>insert\<close> walks down from the root, creating the missing child and then
  stepping into it; after the last character it marks the landing node. The child stepped
  into is the one the map has for the character, or the new node just set; the child as
  mutated by the rest of the walk stays at its place in the map, a new key going last.
  The walk returns the rebuilt node and whether the landing node was already an end of
  word, which decides the increment of the word count.
\<close>

fun insertWalk :: "jsstring list \<Rightarrow> TrieNode \<Rightarrow> TrieNode \<times> bool" where
  "insertWalk [] (TrieNode v e f kids) = (TrieNode v True (f + 1) kids, e)"
| "insertWalk (char # rest) (TrieNode v e f kids) =
     (let child = (case map_of kids char of None \<Rightarrow> newTrieNode char | Some c \<Rightarrow> c);
          (child', wasEnd) = insertWalk rest child
      in (TrieNode v e f (AList.update char child' kids), wasEnd))"

definition insert' :: "(jsstring \<Rightarrow> jsstring) \<Rightarrow> jsval \<Rightarrow> Trie \<Rightarrow> (error + bool) \<times> Trie" where
  "insert' lc word t =
     (if \<not> truthy word \<or> typeof word \<noteq> ''string'' then (Inl InvalidInput, t)
      else case word of
        JStr s \<Rightarrow>
          (let (r, wasEnd) = insertWalk (codePoints (lc s)) (root t)
           in (Inr True,
               \<lparr> root = r, wordCount = (if \<not> wasEnd then wordCount t + 1 else wordCount t) \<rparr>))
      | _ \<Rightarrow> (Inl InvalidInput, t))"

fun searchWalk :: "jsstring list \<Rightarrow> TrieNode \<Rightarrow> bool" where
  "searchWalk [] current = isEndOfWord current"
| "searchWalk (char # rest) current =
     (case map_of (children current) char of
        None \<Rightarrow> False
      | Some c \<Rightarrow> searchWalk rest c)"

definition search :: "(jsstring \<Rightarrow> jsstring) \<Rightarrow> jsval \<Rightarrow> Trie \<Rightarrow> bool" where
  "search lc word t =
     (if \<not> truthy word \<or> typeof word \<noteq> ''string'' then False
      else case word of
        JStr s \<Rightarrow> searchWalk (codePoints (lc s)) (root t)
      | _ \<Rightarrow> False)"

text \<open>
  \<^verbatim>\<open>deleteRecursive\<close> is a closure over the word count: it is threaded through. The
  result is what the closure returns (or the error it throws), the node as mutated, and the
  word count. \<^verbatim>\<open>word[depth].toLowerCase()\<close> throws a TypeError past the end of the
  word. A child is mutated in place by the recursive call, and its entry is removed when the
  call says so.
\<close>

function deleteRecursive ::
  "(jsstring \<Rightarrow> jsstring) \<Rightarrow> TrieNode \<Rightarrow> jsstring \<Rightarrow> nat \<Rightarrow> int \<Rightarrow> (error + bool) \<times> TrieNode \<times> int"
where
  "deleteRecursive lc (TrieNode v e f kids) word depth wc =
     (if depth = length word then
        (if \<not> e then (Inr False, TrieNode v e f kids, wc)
         else (Inr (length kids = 0), TrieNode v False (f - 1) kids, wc - 1))
      else case charAt word depth of
        None \<Rightarrow> (Inl TypeError, TrieNode v e f kids, wc)
      | Some u \<Rightarrow>
          (let char = lc u in
           case map_of kids char of
             None \<Rightarrow> (Inr False, TrieNode v e f kids, wc)
           | Some child \<Rightarrow>
               (case deleteRecursive lc child word (depth + 1) wc of
                  (Inl err, child', wc') \<Rightarrow>
                    (Inl err, TrieNode v e f (AList.update char child' kids), wc')
                | (Inr shouldDeleteCurrentNode, child', wc') \<Rightarrow>
                    if shouldDeleteCurrentNode
                    then (let kids' = AList.delete char kids
                          in (Inr (length kids' = 0 \<and> \<not> e), TrieNode v e f kids', wc'))
                    else (Inr False, TrieNode v e f (AList.update char child' kids), wc'))))"
  by pat_completeness auto
termination
  by (relation "measure (\<lambda>(lc, n, word, depth, wc). length word - depth)")
     (auto simp: charAt_def split: if_splits)

definition delete' :: "(jsstring \<Rightarrow> jsstring) \<Rightarrow> jsval \<Rightarrow> Trie \<Rightarrow> (error + bool) \<times> Trie" where
  "delete' lc word t =
     (if \<not> truthy word \<or> typeof word \<noteq> ''string'' then (Inl InvalidInput, t)
      else case word of
        JStr s \<Rightarrow>
          (case deleteRecursive lc (root t) (lc s) 0 (wordCount t) of
             (Inl err, r, wc) \<Rightarrow> (Inl err, \<lparr> root = r, wordCount = wc \<rparr>)
           | (Inr _, r, wc) \<Rightarrow> (Inr True, \<lparr> root = r, wordCount = wc \<rparr>))
      | _ \<Rightarrow> (Inl InvalidInput, t))"

text \<open>String literals of the source, as code units.\<close>

definition js :: "string \<Rightarrow> jsstring" where
  "js s = map of_char s"

datatype D3Node =
  D3Node (d3name: jsstring) (d3value: jsstring) (d3isEndOfWord: bool) (d3frequency: int)
         (d3depth: nat) (d3children: "D3Node list option")

fun convertToD3Format :: "TrieNode \<Rightarrow> jsstring \<Rightarrow> nat \<Rightarrow> D3Node" where
  "convertToD3Format (TrieNode v e f kids) parentName depth =
     (let nodeName = parentName @ (if v = [] then js ''root'' else v);
          children = map (\<lambda>(_, childNode). convertToD3Format childNode nodeName (depth + 1)) kids
      in D3Node nodeName v e f depth (if length children \<noteq> 0 then Some children else None))"

definition getD3Data :: "Trie \<Rightarrow> D3Node" where
  "getD3Data t = convertToD3Format (root t) [] 0"

section \<open>The Trie of components/Trie.js\<close>

text \<open>
  The standalone module has the same loops without the validation and without the
  lowercasing. It is modelled on string arguments. Past the end of the word
  \<^verbatim>\<open>word[depth]\<close> is undefined, which is the key of no child.
\<close>

definition insert_js :: "jsstring \<Rightarrow> Trie \<Rightarrow> bool \<times> Trie" where
  "insert_js word t =
     (let (r, wasEnd) = insertWalk (codePoints word) (root t)
      in (True, \<lparr> root = r, wordCount = (if \<not> wasEnd then wordCount t + 1 else wordCount t) \<rparr>))"

definition search_js :: "jsstring \<Rightarrow> Trie \<Rightarrow> bool" where
  "search_js word t = searchWalk (codePoints word) (root t)"

function deleteRecursive_js :: "TrieNode \<Rightarrow> jsstring \<Rightarrow> nat \<Rightarrow> int \<Rightarrow> bool \<times> TrieNode \<times> int" where
  "deleteRecursive_js (TrieNode v e f kids) word depth wc =
     (if depth = length word then
        (if \<not> e then (False, TrieNode v e f kids, wc)
         else (length kids = 0, TrieNode v False (f - 1) kids, wc - 1))
      else case charAt word depth of
        None \<Rightarrow> (False, TrieNode v e f kids, wc)
      | Some char \<Rightarrow>
          (case map_of kids char of
             None \<Rightarrow> (False, TrieNode v e f kids, wc)
           | Some child \<Rightarrow>
               (case deleteRecursive_js child word (depth + 1) wc of
                  (shouldDeleteCurrentNode, child', wc') \<Rightarrow>
                    if shouldDeleteCurrentNode
                    then (let kids' = AList.delete char kids
                          in (length kids' = 0 \<and> \<not> e, TrieNode v e f kids', wc'))
                    else (False, TrieNode v e f (AList.update char child' kids), wc'))))"
  by pat_completeness auto
termination
  by (relation "measure (\<lambda>(n, word, depth, wc). length word - depth)")
     (auto simp: charAt_def split: if_splits)

definition delete_js :: "jsstring \<Rightarrow> Trie \<Rightarrow> bool \<times> Trie" where
  "delete_js word t =
     (case deleteRecursive_js (root t) word 0 (wordCount t) of
        (_, r, wc) \<Rightarrow> (True, \<lparr> root = r, wordCount = wc \<rparr>))"

fun convertToD3Format_js :: "TrieNode \<Rightarrow> jsstring \<Rightarrow> nat \<Rightarrow> D3Node" where
  "convertToD3Format_js (TrieNode v e f kids) parentName depth =
     (let nodeName = parentName @ (if v = [] then js ''root'' else v);
          children = map (\<lambda>(_, childNode). convertToD3Format_js childNode nodeName (depth + 1)) kids
      in D3Node nodeName v e f depth (if length children \<noteq> 0 then Some children else None))"

definition getD3Data_js :: "Trie \<Rightarrow> D3Node" where
  "getD3Data_js t = convertToD3Format_js (root t) [] 0"

section \<open>Sequences of calls\<close>

text \<open>
  The application keeps one trie and calls it from its handlers, which catch what is
  thrown. A run returns the result of every call and the trie after the last one.
\<close>

datatype 'a call = Insert 'a | Search 'a | Delete 'a

fun callApp :: "(jsstring \<Rightarrow> jsstring) \<Rightarrow> jsval call \<Rightarrow> Trie \<Rightarrow> (error + bool) \<times> Trie" where
  "callApp lc (Insert w) t = insert' lc w t"
| "callApp lc (Search w) t = (Inr (search lc w t), t)"
| "callApp lc (Delete w) t = delete' lc w t"

fun runApp :: "(jsstring \<Rightarrow> jsstring) \<Rightarrow> jsval call list \<Rightarrow> Trie \<Rightarrow> (error + bool) list \<times> Trie" where
  "runApp lc [] t = ([], t)"
| "runApp lc (c # cs) t =
     (let (r, t') = callApp lc c t; (rs, t'') = runApp lc cs t' in (r # rs, t''))"

fun call_js :: "jsstring call \<Rightarrow> Trie \<Rightarrow> bool \<times> Trie" where
  "call_js (Insert w) t = insert_js w t"
| "call_js (Search w) t = (search_js w t, t)"
| "call_js (Delete w) t = delete_js w t"

fun run_js :: "jsstring call list \<Rightarrow> Trie \<Rightarrow> bool list \<times> Trie" where
  "run_js [] t = ([], t)"
| "run_js (c # cs) t =
     (let (r, t') = call_js c t; (rs, t'') = run_js cs t' in (r # rs, t''))"

fun arg :: "'a call \<Rightarrow> 'a" where
  "arg (Insert w) = w"
| "arg (Search w) = w"
| "arg (Delete w) = w"

section \<open>Notions used by the statements\<close>

text \<open>
  The host's lowercasing on ASCII strings: A to Z move to a to z, every other unit stays.
  Any \<open>lc\<close> standing for \<^verbatim>\<open>toLowerCase\<close> agrees with it on strings of ASCII units.
\<close>

definition toLowerCaseASCII :: "jsstring \<Rightarrow> jsstring" where
  "toLowerCaseASCII s = map (\<lambda>u. if 0x41 \<le> u \<and> u \<le> 0x5A then u + 0x20 else u) s"

definition lowersASCII :: "(jsstring \<Rightarrow> jsstring) \<Rightarrow> bool" where
  "lowersASCII lc = (\<forall>s. (\<forall>u \<in> set s. u < 0x80) \<longrightarrow> lc s = toLowerCaseASCII s)"

text \<open>A word is already lowercase when lowercasing changes neither it nor any of its units.\<close>

definition alreadyLower :: "(jsstring \<Rightarrow> jsstring) \<Rightarrow> jsstring \<Rightarrow> bool" where
  "alreadyLower lc s = (lc s = s \<and> (\<forall>u \<in> set s. lc [u] = [u]))"

text \<open>
  The keys \<^verbatim>\<open>deleteRecursive\<close> follows for a word: one per code unit, each lowercased
  on its own. \<^verbatim>\<open>insert\<close> and \<^verbatim>\<open>search\<close> follow \<^const>\<open>codePoints\<close> instead.
\<close>

definition deleteKeys :: "(jsstring \<Rightarrow> jsstring) \<Rightarrow> jsstring \<Rightarrow> jsstring list" where
  "deleteKeys lc word = map (\<lambda>u. lc [u]) word"

text \<open>The node at the end of a path of keys, if the path is in the tree.\<close>

fun nodeAt :: "jsstring list \<Rightarrow> TrieNode \<Rightarrow> TrieNode option" where
  "nodeAt [] n = Some n"
| "nodeAt (k # ks) n = (case map_of (children n) k of None \<Rightarrow> None | Some c \<Rightarrow> nodeAt ks c)"

text \<open>
  No node below the given one is both childless and not an end of word. The given node
  itself (the root) is exempt.
\<close>

fun noOrphans :: "TrieNode \<Rightarrow> bool" where
  "noOrphans (TrieNode v e f kids) =
     (\<forall>p \<in> set kids. (children (snd p) \<noteq> [] \<or> isEndOfWord (snd p)) \<and> noOrphans (snd p))"

text \<open>
  \<^const>\<open>deleteRecursive\<close> as a walk along a list of keys, by recursion on the list; it is
  proved below to be what \<^const>\<open>deleteRecursive\<close> and \<^const>\<open>deleteRecursive_js\<close> compute.
\<close>

fun delWalk :: "jsstring list \<Rightarrow> TrieNode \<Rightarrow> int \<Rightarrow> bool \<times> TrieNode \<times> int" where
  "delWalk [] (TrieNode v e f kids) wc =
     (if \<not> e then (False, TrieNode v e f kids, wc)
      else (kids = [], TrieNode v False (f - 1) kids, wc - 1))"
| "delWalk (char # rest) (TrieNode v e f kids) wc =
     (case map_of kids char of
        None \<Rightarrow> (False, TrieNode v e f kids, wc)
      | Some child \<Rightarrow>
          (case delWalk rest child wc of
             (del, child', wc') \<Rightarrow>
               if del
               then (AList.delete char kids = [] \<and> \<not> e, TrieNode v e f (AList.delete char kids), wc')
               else (False, TrieNode v e f (AList.update char child' kids), wc')))"

section \<open>Lemmas on the children map\<close>

lemma set_update_cases:
  "x \<in> set (AList.update k v al) \<Longrightarrow> x = (k, v) \<or> x \<in> set al"
  by (induction al) (auto split: if_splits)

lemma set_delete_subset: "x \<in> set (AList.delete k al) \<Longrightarrow> x \<in> set al"
  by (simp add: AList.delete_eq)

section \<open>Lemmas on the walk of insert\<close>

lemma searchWalk_insertWalk: "searchWalk cs (fst (insertWalk cs n)) = True"
proof (induction cs arbitrary: n)
  case Nil
  show ?case by (cases n) simp
next
  case (Cons c cs)
  obtain v e f kids where n: "n = TrieNode v e f kids" by (cases n)
  define child where "child = (case map_of kids c of None \<Rightarrow> newTrieNode c | Some x \<Rightarrow> x)"
  from Cons.IH [of child] show ?case
    by (simp add: n child_def split_beta Let_def AList.update_conv')
qed

lemma searchWalk_newTrieNode: "searchWalk q (newTrieNode c) = False"
  by (cases q) (simp_all add: newTrieNode_def)

lemma snd_insertWalk: "snd (insertWalk p n) = searchWalk p n"
proof (induction p arbitrary: n)
  case Nil
  show ?case by (cases n) simp
next
  case (Cons c p)
  obtain v e f kids where n: "n = TrieNode v e f kids" by (cases n)
  show ?case
    by (cases "map_of kids c") (simp_all add: n split_beta Let_def Cons.IH searchWalk_newTrieNode)
qed

lemma searchWalk_insertWalk_other:
  "q \<noteq> p \<Longrightarrow> searchWalk q (fst (insertWalk p n)) = searchWalk q n"
proof (induction p arbitrary: q n)
  case Nil
  then obtain k ks where q: "q = k # ks" by (cases q) auto
  show ?case by (cases n) (simp add: q)
next
  case (Cons c p)
  obtain v e f kids where n: "n = TrieNode v e f kids" by (cases n)
  show ?case
  proof (cases q)
    case Nil
    then show ?thesis by (simp add: n split_beta Let_def)
  next
    case (Cons k ks)
    show ?thesis
    proof (cases "k = c")
      case False
      then show ?thesis by (simp add: n Cons split_beta Let_def AList.update_conv')
    next
      case True
      with Cons Cons.prems have ne: "ks \<noteq> p" by simp
      show ?thesis
        using Cons.IH [OF ne]
        by (cases "map_of kids c")
           (simp_all add: n Cons True split_beta Let_def AList.update_conv' searchWalk_newTrieNode)
    qed
  qed
qed

lemma nodeAt_newTrieNode:
  "nodeAt p (newTrieNode c) = (if p = [] then Some (newTrieNode c) else None)"
  by (cases p) (simp_all add: newTrieNode_def)

lemma frequency_insertWalk:
  "map_option frequency (nodeAt p (fst (insertWalk p n))) =
     Some ((case nodeAt p n of None \<Rightarrow> 0 | Some m \<Rightarrow> frequency m) + 1)"
proof (induction p arbitrary: n)
  case Nil
  show ?case by (cases n) simp
next
  case (Cons c p)
  obtain v e f kids where n: "n = TrieNode v e f kids" by (cases n)
  show ?case
  proof (cases "map_of kids c")
    case None
    have fresh: "(case nodeAt p (newTrieNode c) of None \<Rightarrow> 0 | Some m \<Rightarrow> frequency m) = 0"
      by (simp add: nodeAt_newTrieNode) (simp add: newTrieNode_def)
    show ?thesis
      using Cons.IH [of "newTrieNode c"] None
      by (simp add: n split_beta Let_def AList.update_conv' fresh)
  next
    case (Some child)
    then show ?thesis
      using Cons.IH [of child]
      by (simp add: n split_beta Let_def AList.update_conv')
  qed
qed

lemma nodeAt_of_searchWalk: "searchWalk (p @ q) n \<Longrightarrow> nodeAt p n \<noteq> None"
  by (induction p arbitrary: n) (auto split: option.splits)

lemma noOrphans_insertWalk:
  "noOrphans n \<Longrightarrow>
   noOrphans (fst (insertWalk p n)) \<and>
   (p \<noteq> [] \<longrightarrow> children (fst (insertWalk p n)) \<noteq> []) \<and>
   (p = [] \<longrightarrow> isEndOfWord (fst (insertWalk p n)))"
proof (induction p arbitrary: n)
  case Nil
  then show ?case by (cases n) simp
next
  case (Cons c p)
  obtain v e f kids where n: "n = TrieNode v e f kids" by (cases n)
  define child where "child = (case map_of kids c of None \<Rightarrow> newTrieNode c | Some x \<Rightarrow> x)"
  have "noOrphans child"
  proof (cases "map_of kids c")
    case None
    then show ?thesis by (simp add: child_def newTrieNode_def)
  next
    case (Some x)
    then have "(c, x) \<in> set kids" by (rule map_of_SomeD)
    with Cons.prems Some show ?thesis by (auto simp: n child_def)
  qed
  note ih = Cons.IH [OF this]
  have eq: "fst (insertWalk (c # p) n) = TrieNode v e f (AList.update c (fst (insertWalk p child)) kids)"
    by (simp add: n child_def split_beta Let_def)
  from ih Cons.prems have "noOrphans (fst (insertWalk (c # p) n))"
    unfolding eq by (cases "p = []") (auto simp: n dest!: set_update_cases)
  then show ?case by (simp add: eq)
qed

section \<open>Lemmas on the walk of delete\<close>

lemma searchWalk_barren:
  "children n = [] \<Longrightarrow> \<not> isEndOfWord n \<Longrightarrow> searchWalk q n = False"
  by (cases q) simp_all

lemma delWalk_flag:
  "delWalk p n wc = (b, n', wc') \<Longrightarrow> b \<Longrightarrow> children n' = [] \<and> \<not> isEndOfWord n'"
proof (induction p arbitrary: n wc b n' wc')
  case Nil
  then show ?case by (cases n) (auto split: if_splits)
next
  case (Cons c p)
  obtain v e f kids where n: "n = TrieNode v e f kids" by (cases n)
  show ?case
  proof (cases "map_of kids c")
    case None
    with Cons.prems show ?thesis by (simp add: n)
  next
    case (Some child)
    obtain d child' w where r: "delWalk p child wc = (d, child', w)" by (cases "delWalk p child wc")
    with Cons.prems Some show ?thesis by (auto simp: n split: if_splits)
  qed
qed

lemma searchWalk_delWalk:
  "delWalk p n wc = (b, n', wc') \<Longrightarrow> searchWalk p n' = False"
proof (induction p arbitrary: n wc b n' wc')
  case Nil
  then show ?case by (cases n) (auto split: if_splits)
next
  case (Cons c p)
  obtain v e f kids where n: "n = TrieNode v e f kids" by (cases n)
  show ?case
  proof (cases "map_of kids c")
    case None
    with Cons.prems show ?thesis by (auto simp: n)
  next
    case (Some child)
    obtain d child' w where r: "delWalk p child wc = (d, child', w)" by (cases "delWalk p child wc")
    from Cons.IH [OF r] Cons.prems Some r show ?thesis
      by (auto simp: n AList.update_conv' AList.delete_conv' split: if_splits)
  qed
qed

lemma wordCount_delWalk:
  "delWalk p n wc = (b, n', wc') \<Longrightarrow> wc' = (if searchWalk p n then wc - 1 else wc)"
proof (induction p arbitrary: n wc b n' wc')
  case Nil
  then show ?case by (cases n) (auto split: if_splits)
next
  case (Cons c p)
  obtain v e f kids where n: "n = TrieNode v e f kids" by (cases n)
  show ?case
  proof (cases "map_of kids c")
    case None
    with Cons.prems show ?thesis by (auto simp: n)
  next
    case (Some child)
    obtain d child' w where r: "delWalk p child wc = (d, child', w)" by (cases "delWalk p child wc")
    from Cons.IH [OF r] Cons.prems Some r show ?thesis
      by (auto simp: n split: if_splits)
  qed
qed

lemma searchWalk_delWalk_other:
  "delWalk p n wc = (b, n', wc') \<Longrightarrow> q \<noteq> p \<Longrightarrow> searchWalk q n' = searchWalk q n"
proof (induction p arbitrary: n wc b n' wc' q)
  case Nil
  then obtain k ks where q: "q = k # ks" by (cases q) auto
  from Nil show ?case by (cases n) (auto simp: q split: if_splits)
next
  case (Cons c p)
  obtain v e f kids where n: "n = TrieNode v e f kids" by (cases n)
  show ?case
  proof (cases "map_of kids c")
    case None
    with Cons.prems show ?thesis by (auto simp: n)
  next
    case (Some child)
    obtain d child' w where r: "delWalk p child wc = (d, child', w)" by (cases "delWalk p child wc")
    show ?thesis
    proof (cases q)
      case Nil
      with Cons.prems Some r show ?thesis by (auto simp: n split: if_splits)
    next
      case (Cons k ks)
      show ?thesis
      proof (cases "k = c")
        case False
        from Cons.prems Some r
        have "children n' = AList.delete c kids \<or> children n' = AList.update c child' kids"
          by (auto simp: n split: if_splits)
        with False have "map_of (children n') k = map_of kids k"
          by (auto simp: AList.update_conv' AList.delete_conv')
        then show ?thesis by (simp add: Cons n)
      next
        case True
        with Cons Cons.prems have ne: "ks \<noteq> p" by simp
        have same: "searchWalk ks child' = searchWalk ks child"
          by (rule Cons.IH [OF r ne])
        show ?thesis
        proof (cases d)
          case True
          with delWalk_flag [OF r] have "searchWalk ks child' = False"
            by (simp add: searchWalk_barren)
          with same Cons.prems Some r Cons \<open>k = c\<close> True show ?thesis
            by (auto simp: n AList.delete_conv')
        next
          case False
          with same Cons.prems Some r Cons \<open>k = c\<close> show ?thesis
            by (auto simp: n AList.update_conv')
        qed
      qed
    qed
  qed
qed

lemma delWalk_absent:
  "\<not> searchWalk p n \<Longrightarrow> delWalk p n wc = (False, n, wc)"
proof (induction p arbitrary: n)
  case Nil
  then show ?case by (cases n) simp
next
  case (Cons c p)
  obtain v e f kids where n: "n = TrieNode v e f kids" by (cases n)
  show ?case
  proof (cases "map_of kids c")
    case None
    then show ?thesis by (simp add: n)
  next
    case (Some child)
    with Cons.prems have "\<not> searchWalk p child" by (simp add: n)
    from Cons.IH [OF this] Some show ?thesis
      by (simp add: n AList.update_triv)
  qed
qed

lemma noOrphans_delWalk:
  "delWalk p n wc = (b, n', wc') \<Longrightarrow> noOrphans n \<Longrightarrow>
   noOrphans n' \<and> (\<not> b \<and> (children n \<noteq> [] \<or> isEndOfWord n) \<longrightarrow> children n' \<noteq> [] \<or> isEndOfWord n')"
proof (induction p arbitrary: n wc b n' wc')
  case Nil
  then show ?case by (cases n) (auto split: if_splits)
next
  case (Cons c p)
  obtain v e f kids where n: "n = TrieNode v e f kids" by (cases n)
  show ?case
  proof (cases "map_of kids c")
    case None
    with Cons.prems show ?thesis by (auto simp: n)
  next
    case (Some child)
    obtain d child' w where r: "delWalk p child wc = (d, child', w)" by (cases "delWalk p child wc")
    from Some have mem: "(c, child) \<in> set kids" by (rule map_of_SomeD)
    with Cons.prems(2) have child: "noOrphans child" "children child \<noteq> [] \<or> isEndOfWord child"
      by (auto simp: n)
    note ih = Cons.IH [OF r child(1)]
    show ?thesis
    proof (cases d)
      case True
      with Cons.prems Some r have n': "n' = TrieNode v e f (AList.delete c kids)"
        and b: "b = (AList.delete c kids = [] \<and> \<not> e)" by (auto simp: n)
      from Cons.prems(2) have "noOrphans n'"
        by (auto simp: n n' dest: set_delete_subset)
      then show ?thesis by (auto simp: n' b)
    next
      case False
      with Cons.prems Some r have n': "n' = TrieNode v e f (AList.update c child' kids)"
        by (auto simp: n)
      from ih child(2) False have live: "children child' \<noteq> [] \<or> isEndOfWord child'" by simp
      from ih have "noOrphans child'" by simp
      with live Cons.prems(2) have "noOrphans n'"
        by (auto simp: n n' dest!: set_update_cases)
      then show ?thesis by (simp add: n')
    qed
  qed
qed

section \<open>The recursive delete is the walk along its keys\<close>

lemma deleteRecursive_delWalk:
  "depth \<le> length word \<Longrightarrow>
   deleteRecursive lc n word depth wc =
     (case delWalk (deleteKeys lc (drop depth word)) n wc of (b, n', wc') \<Rightarrow> (Inr b, n', wc'))"
proof (induction lc n word depth wc rule: deleteRecursive.induct)
  case (1 lc v e f kids word depth wc)
  show ?case
  proof (cases "depth = length word")
    case True
    then show ?thesis by (simp add: deleteKeys_def)
  next
    case False
    with "1.prems" have lt: "depth < length word" by simp
    then have dr: "drop depth word = word ! depth # drop (Suc depth) word"
      by (simp add: Cons_nth_drop_Suc)
    have ch: "charAt word depth = Some [word ! depth]" using lt by (simp add: charAt_def)
    show ?thesis
    proof (cases "map_of kids (lc [word ! depth])")
      case None
      with False ch show ?thesis by (simp add: dr deleteKeys_def)
    next
      case (Some child)
      from lt have le: "depth + 1 \<le> length word" by simp
      note ih = "1.IH" [OF False ch refl Some le]
      obtain d child' w where r:
        "delWalk (deleteKeys lc (drop (Suc depth) word)) child wc = (d, child', w)"
        by (cases "delWalk (deleteKeys lc (drop (Suc depth) word)) child wc")
      with ih have "deleteRecursive lc child word (Suc depth) wc = (Inr d, child', w)" by simp
      with False ch Some r show ?thesis
        by (simp add: dr deleteKeys_def Let_def)
    qed
  qed
qed

lemma deleteRecursive_js_delWalk:
  "depth \<le> length word \<Longrightarrow>
   deleteRecursive_js n word depth wc = delWalk (map (\<lambda>u. [u]) (drop depth word)) n wc"
proof (induction n word depth wc rule: deleteRecursive_js.induct)
  case (1 v e f kids word depth wc)
  show ?case
  proof (cases "depth = length word")
    case True
    then show ?thesis by simp
  next
    case False
    with "1.prems" have lt: "depth < length word" by simp
    then have dr: "drop depth word = word ! depth # drop (Suc depth) word"
      by (simp add: Cons_nth_drop_Suc)
    have ch: "charAt word depth = Some [word ! depth]" using lt by (simp add: charAt_def)
    show ?thesis
    proof (cases "map_of kids [word ! depth]")
      case None
      with False ch show ?thesis by (simp add: dr)
    next
      case (Some child)
      from lt have le: "depth + 1 \<le> length word" by simp
      note ih = "1.IH" [OF False ch Some le]
      obtain d child' w where r:
        "delWalk (map (\<lambda>u. [u]) (drop (Suc depth) word)) child wc = (d, child', w)"
        by (cases "delWalk (map (\<lambda>u. [u]) (drop (Suc depth) word)) child wc")
      with ih have "deleteRecursive_js child word (Suc depth) wc = (d, child', w)" by simp
      with False ch Some r show ?thesis
        by (simp add: dr Let_def)
    qed
  qed
qed

section \<open>The operations on a valid word\<close>

lemma insert'_JStr:
  "s \<noteq> [] \<Longrightarrow>
   insert' lc (JStr s) t =
     (Inr True,
      \<lparr> root = fst (insertWalk (codePoints (lc s)) (root t)),
        wordCount = (if searchWalk (codePoints (lc s)) (root t) then wordCount t
                     else wordCount t + 1) \<rparr>)"
  by (simp add: insert'_def split_beta snd_insertWalk)

lemma search_JStr:
  "s \<noteq> [] \<Longrightarrow> search lc (JStr s) t = searchWalk (codePoints (lc s)) (root t)"
  by (simp add: search_def)

lemma delete'_JStr:
  "s \<noteq> [] \<Longrightarrow>
   delete' lc (JStr s) t =
     (case delWalk (deleteKeys lc (lc s)) (root t) (wordCount t) of
        (b, r, wc) \<Rightarrow> (Inr True, \<lparr> root = r, wordCount = wc \<rparr>))"
  using deleteRecursive_delWalk [of 0 "lc s" lc "root t" "wordCount t"]
  by (simp add: delete'_def split: prod.splits)

lemma insert_js_eq:
  "insert_js s t =
     (True,
      \<lparr> root = fst (insertWalk (codePoints s) (root t)),
        wordCount = (if searchWalk (codePoints s) (root t) then wordCount t
                     else wordCount t + 1) \<rparr>)"
  by (simp add: insert_js_def split_beta snd_insertWalk)

lemma delete_js_eq:
  "delete_js s t =
     (case delWalk (map (\<lambda>u. [u]) s) (root t) (wordCount t) of
        (b, r, wc) \<Rightarrow> (True, \<lparr> root = r, wordCount = wc \<rparr>))"
  using deleteRecursive_js_delWalk [of 0 s "root t" "wordCount t"]
  by (simp add: delete_js_def split: prod.splits)

lemma delete'_other_word:
  assumes "s1 \<noteq> []" and "s2 \<noteq> []" and "codePoints (lc s2) \<noteq> deleteKeys lc (lc s1)"
  shows "search lc (JStr s2) (snd (delete' lc (JStr s1) t)) = search lc (JStr s2) t"
proof -
  obtain b r wc where d: "delWalk (deleteKeys lc (lc s1)) (root t) (wordCount t) = (b, r, wc)"
    by (cases "delWalk (deleteKeys lc (lc s1)) (root t) (wordCount t)")
  from searchWalk_delWalk_other [OF d assms(3)] d assms(1,2) show ?thesis
    by (simp add: delete'_JStr search_JStr)
qed

section \<open>Words of ASCII units\<close>

lemma lowersASCII_toLowerCaseASCII: "lowersASCII toLowerCaseASCII"
  by (simp add: lowersASCII_def)

lemma toLowerCaseASCII_ascii:
  "\<forall>u \<in> set s. u < 0x80 \<Longrightarrow> \<forall>u \<in> set (toLowerCaseASCII s). u < 0x80"
proof (induction s)
  case Nil
  show ?case by (simp add: toLowerCaseASCII_def)
next
  case (Cons a s)
  then have a: "a < 0x80" and rest: "\<forall>u \<in> set (toLowerCaseASCII s). u < 0x80" by simp_all
  have "a \<le> 0x5A \<Longrightarrow> a + 0x20 < 0x80"
    by (simp add: word_le_nat_alt word_less_nat_alt unat_word_ariths)
  with a rest show ?case by (simp add: toLowerCaseASCII_def)
qed

lemma deleteKeys_ascii:
  assumes "lowersASCII lc" and "\<forall>u \<in> set s. u < 0x80"
  shows "deleteKeys lc s = deleteKeys toLowerCaseASCII s"
  using assms by (simp add: deleteKeys_def lowersASCII_def)

lemma operations_ascii:
  assumes "lowersASCII lc" and "\<forall>u \<in> set s. u < 0x80"
  shows "insert' lc (JStr s) t = insert' toLowerCaseASCII (JStr s) t"
    and "search lc (JStr s) t = search toLowerCaseASCII (JStr s) t"
    and "delete' lc (JStr s) t = delete' toLowerCaseASCII (JStr s) t"
proof -
  from assms have eq: "lc s = toLowerCaseASCII s" by (simp add: lowersASCII_def)
  show "insert' lc (JStr s) t = insert' toLowerCaseASCII (JStr s) t"
    by (simp add: insert'_def eq)
  show "search lc (JStr s) t = search toLowerCaseASCII (JStr s) t"
    by (simp add: search_def eq)
  have "deleteKeys lc (toLowerCaseASCII s) = deleteKeys toLowerCaseASCII (toLowerCaseASCII s)"
    using assms by (intro deleteKeys_ascii toLowerCaseASCII_ascii)
  then show "delete' lc (JStr s) t = delete' toLowerCaseASCII (JStr s) t"
    by (cases "s = []") (simp_all add: delete'_JStr eq, simp add: delete'_def)
qed

lemma ascii_js: "\<forall>u \<in> set (js ''cat''). u < 0x80" "\<forall>u \<in> set (js ''car''). u < 0x80"
  "\<forall>u \<in> set (js ''Cat''). u < 0x80" "\<forall>u \<in> set (js ''CAT''). u < 0x80"
  "\<forall>u \<in> set (js ''ab''). u < 0x80"
  by (simp_all add: js_def)

section \<open>Insert and search\<close>

text \<open>
  C1. For every non-empty string w and every trie, \<^verbatim>\<open>insert(w)\<close> followed by
  \<^verbatim>\<open>search(w)\<close> on the same trie returns true. This holds whatever the lowercasing
  function is, and for every trie, reachable or not.
\<close>

theorem insert_then_search:
  "s \<noteq> [] \<Longrightarrow> search lc (JStr s) (snd (insert' lc (JStr s) t)) = True"
  using searchWalk_insertWalk [of "codePoints (lc s)" "root t"]
  by (simp add: search_def insert'_def split_beta)

theorem insert_then_search_witness:
  "js ''cat'' \<noteq> [] \<and>
   search toLowerCaseASCII (JStr (js ''cat''))
     (snd (insert' toLowerCaseASCII (JStr (js ''cat'')) newTrie)) = True"
  using insert_then_search [of "js ''cat''" toLowerCaseASCII newTrie]
  by (simp add: js_def)

text \<open>
  C5. For every valid word w and every trie, inserting w twice leaves search(w) true, each
  of the two inserts raises the frequency of the node where w ends by exactly 1 (a node
  that was not there counts as frequency 0), and the word count grows by one in all if w
  was absent and not at all if it was present: the second insert never adds to it.
\<close>

theorem insert_twice:
  assumes "s \<noteq> []"
  shows "search lc (JStr s) (snd (insert' lc (JStr s) (snd (insert' lc (JStr s) t)))) = True \<and>
         map_option frequency (nodeAt (codePoints (lc s)) (root (snd (insert' lc (JStr s) t)))) =
           Some ((case nodeAt (codePoints (lc s)) (root t) of None \<Rightarrow> 0 | Some m \<Rightarrow> frequency m) + 1) \<and>
         map_option frequency
           (nodeAt (codePoints (lc s)) (root (snd (insert' lc (JStr s) (snd (insert' lc (JStr s) t)))))) =
           Some ((case nodeAt (codePoints (lc s)) (root t) of None \<Rightarrow> 0 | Some m \<Rightarrow> frequency m) + 2) \<and>
         wordCount (snd (insert' lc (JStr s) (snd (insert' lc (JStr s) t)))) =
           wordCount (snd (insert' lc (JStr s) t)) \<and>
         wordCount (snd (insert' lc (JStr s) t)) =
           (if search lc (JStr s) t then wordCount t else wordCount t + 1)"
proof -
  define p where "p = codePoints (lc s)"
  define r1 where "r1 = fst (insertWalk p (root t))"
  have f1: "map_option frequency (nodeAt p r1) =
      Some ((case nodeAt p (root t) of None \<Rightarrow> 0 | Some m \<Rightarrow> frequency m) + 1)"
    unfolding r1_def by (rule frequency_insertWalk)
  then obtain m where m: "nodeAt p r1 = Some m"
    "frequency m = (case nodeAt p (root t) of None \<Rightarrow> 0 | Some m \<Rightarrow> frequency m) + 1"
    by auto
  have f2: "map_option frequency (nodeAt p (fst (insertWalk p r1))) =
      Some ((case nodeAt p (root t) of None \<Rightarrow> 0 | Some m \<Rightarrow> frequency m) + 2)"
    by (simp add: frequency_insertWalk [of p r1] m)
  have present: "searchWalk p r1" by (simp add: r1_def searchWalk_insertWalk)
  show ?thesis
    using assms f1 f2 present
    by (simp add: insert'_JStr search_JStr searchWalk_insertWalk p_def [symmetric] r1_def [symmetric])
qed

theorem insert_twice_witness:
  "js ''cat'' \<noteq> [] \<and>
   search toLowerCaseASCII (JStr (js ''cat''))
     (snd (insert' toLowerCaseASCII (JStr (js ''cat''))
        (snd (insert' toLowerCaseASCII (JStr (js ''cat'')) newTrie)))) = True \<and>
   wordCount (snd (insert' toLowerCaseASCII (JStr (js ''cat''))
        (snd (insert' toLowerCaseASCII (JStr (js ''cat'')) newTrie)))) =
   wordCount (snd (insert' toLowerCaseASCII (JStr (js ''cat'')) newTrie))"
proof -
  have ne: "js ''cat'' \<noteq> []" by (simp add: js_def)
  show ?thesis
    using insert_twice [OF ne, of toLowerCaseASCII newTrie] ne by simp
qed

text \<open>
  C7. Membership is case-insensitive: a word is lowercased before it is stored or looked
  up, so two spellings with the same lowercase form are the same word, and after
  insert("Cat") both search("cat") and search("CAT") return true.
\<close>

theorem case_insensitive:
  assumes "lowersASCII lc"
  shows "search lc (JStr (js ''cat'')) (snd (insert' lc (JStr (js ''Cat'')) t)) = True \<and>
         search lc (JStr (js ''CAT'')) (snd (insert' lc (JStr (js ''Cat'')) t)) = True \<and>
         (\<forall>s1 s2. s1 \<noteq> [] \<and> s2 \<noteq> [] \<and> lc s1 = lc s2 \<longrightarrow>
            search lc (JStr s2) (snd (insert' lc (JStr s1) t)) = True)"
proof -
  have same: "search lc (JStr s2) (snd (insert' lc (JStr s1) t)) = True"
    if "s1 \<noteq> []" "s2 \<noteq> []" "lc s1 = lc s2" for s1 s2
    using that searchWalk_insertWalk [of "codePoints (lc s2)" "root t"]
    by (simp add: search_JStr insert'_JStr)
  from assms have "lc (js ''Cat'') = toLowerCaseASCII (js ''Cat'')"
    "lc (js ''cat'') = toLowerCaseASCII (js ''cat'')"
    "lc (js ''CAT'') = toLowerCaseASCII (js ''CAT'')"
    by (simp_all add: lowersASCII_def ascii_js)
  then have "lc (js ''Cat'') = lc (js ''cat'')" "lc (js ''Cat'') = lc (js ''CAT'')"
    by (simp_all add: js_def toLowerCaseASCII_def)
  moreover have "js ''Cat'' \<noteq> []" "js ''cat'' \<noteq> []" "js ''CAT'' \<noteq> []"
    by (simp_all add: js_def)
  ultimately show ?thesis using same by blast
qed

theorem case_insensitive_witness:
  "lowersASCII toLowerCaseASCII \<and>
   search toLowerCaseASCII (JStr (js ''cat''))
     (snd (insert' toLowerCaseASCII (JStr (js ''Cat'')) newTrie)) = True \<and>
   search toLowerCaseASCII (JStr (js ''CAT''))
     (snd (insert' toLowerCaseASCII (JStr (js ''Cat'')) newTrie)) = True"
  using case_insensitive [OF lowersASCII_toLowerCaseASCII, of newTrie]
        lowersASCII_toLowerCaseASCII
  by simp

section \<open>Delete\<close>

text \<open>
  C2. For every non-empty string w that delete reads as insert does (the keys delete
  follows for w are the code points insert walked) and every trie, insert(w) followed by
  delete(w) leaves search(w) returning false; the word count is then back at its value
  before the insert when w was absent before the insert, and one below it when w was
  already present, since the insert of a present word does not raise the count.
\<close>

theorem insert_then_delete:
  assumes "s \<noteq> []" and "deleteKeys lc (lc s) = codePoints (lc s)"
  shows "search lc (JStr s) (snd (delete' lc (JStr s) (snd (insert' lc (JStr s) t)))) = False \<and>
         wordCount (snd (delete' lc (JStr s) (snd (insert' lc (JStr s) t)))) =
           (if search lc (JStr s) t then wordCount t - 1 else wordCount t)"
proof -
  define p where "p = codePoints (lc s)"
  define r1 where "r1 = fst (insertWalk p (root t))"
  define w1 where "w1 = (if searchWalk p (root t) then wordCount t else wordCount t + 1)"
  obtain b r2 w2 where d: "delWalk p r1 w1 = (b, r2, w2)" by (cases "delWalk p r1 w1")
  have ins: "snd (insert' lc (JStr s) t) = \<lparr> root = r1, wordCount = w1 \<rparr>"
    using assms(1) by (simp add: insert'_JStr p_def r1_def w1_def)
  have del: "snd (delete' lc (JStr s) \<lparr> root = r1, wordCount = w1 \<rparr>) = \<lparr> root = r2, wordCount = w2 \<rparr>"
    using assms d by (simp add: delete'_JStr p_def)
  have final: "snd (delete' lc (JStr s) (snd (insert' lc (JStr s) t))) = \<lparr> root = r2, wordCount = w2 \<rparr>"
    by (simp only: ins del)
  have present: "searchWalk p r1" by (simp add: r1_def searchWalk_insertWalk)
  from wordCount_delWalk [OF d] present
  have count: "w2 = (if searchWalk (codePoints (lc s)) (root t) then wordCount t - 1 else wordCount t)"
    by (simp add: w1_def p_def)
  from searchWalk_delWalk [OF d] have gone: "searchWalk (codePoints (lc s)) r2 = False"
    unfolding p_def .
  show ?thesis
    unfolding final using assms(1) count gone by (simp add: search_JStr)
qed

theorem insert_then_delete_witness:
  "js ''cat'' \<noteq> [] \<and>
   deleteKeys toLowerCaseASCII (toLowerCaseASCII (js ''cat'')) =
     codePoints (toLowerCaseASCII (js ''cat'')) \<and>
   search toLowerCaseASCII (JStr (js ''cat''))
     (snd (delete' toLowerCaseASCII (JStr (js ''cat''))
        (snd (insert' toLowerCaseASCII (JStr (js ''cat'')) newTrie)))) = False \<and>
   wordCount (snd (delete' toLowerCaseASCII (JStr (js ''cat''))
        (snd (insert' toLowerCaseASCII (JStr (js ''cat'')) newTrie)))) = 0"
proof -
  have ne: "js ''cat'' \<noteq> []" by (simp add: js_def)
  have keys: "deleteKeys toLowerCaseASCII (toLowerCaseASCII (js ''cat'')) =
     codePoints (toLowerCaseASCII (js ''cat''))"
    by (simp add: js_def deleteKeys_def toLowerCaseASCII_def isHighSurrogate_def)
  have absent: "\<not> search toLowerCaseASCII (JStr (js ''cat'')) newTrie"
    by (simp add: search_def js_def toLowerCaseASCII_def isHighSurrogate_def newTrie_def newTrieNode_def)
  show ?thesis
    using insert_then_delete [OF ne keys, of newTrie] ne keys absent
    by (simp add: newTrie_def)
qed

text \<open>
  From the trie that holds "a" (word count 1), insert("a") followed by delete("a") ends
  with the word count 0.
\<close>

theorem wordCount_not_restored:
  "wordCount (snd (insert' toLowerCaseASCII (JStr (js ''a'')) newTrie)) = 1 \<and>
   wordCount (snd (delete' toLowerCaseASCII (JStr (js ''a''))
     (snd (insert' toLowerCaseASCII (JStr (js ''a''))
       (snd (insert' toLowerCaseASCII (JStr (js ''a'')) newTrie)))))) = 0"
  by code_simp

text \<open>
  A word with a character outside the Basic Multilingual Plane (here U+1F600, the units
  D83D DE00): insert keys the child by the whole pair, delete looks for the first unit
  alone, finds nothing, and leaves the word in the trie.
\<close>

lemma delete_misses_surrogate_pair:
  "search toLowerCaseASCII (JStr [0xD83D, 0xDE00])
     (snd (delete' toLowerCaseASCII (JStr [0xD83D, 0xDE00])
        (snd (insert' toLowerCaseASCII (JStr [0xD83D, 0xDE00]) newTrie)))) = True \<and>
   wordCount (snd (delete' toLowerCaseASCII (JStr [0xD83D, 0xDE00])
        (snd (insert' toLowerCaseASCII (JStr [0xD83D, 0xDE00]) newTrie)))) = 1"
  by code_simp

text \<open>
  C6. In every trie, after inserting "cat" and "car", deleting "cat" leaves search("car")
  returning true and search("cat") false, and the shared nodes for "c" and "ca" are still
  in the tree: the pruning stops at the "a" node, which still has the child "r". In
  general a delete changes the search result of no word that is stored under other keys
  than the ones the delete follows.
\<close>

theorem shared_prefix_kept:
  assumes "lowersASCII lc"
  shows "search lc (JStr (js ''car''))
           (snd (delete' lc (JStr (js ''cat''))
             (snd (insert' lc (JStr (js ''car'')) (snd (insert' lc (JStr (js ''cat'')) t)))))) = True \<and>
         search lc (JStr (js ''cat''))
           (snd (delete' lc (JStr (js ''cat''))
             (snd (insert' lc (JStr (js ''car'')) (snd (insert' lc (JStr (js ''cat'')) t)))))) = False \<and>
         nodeAt [js ''c'']
           (root (snd (delete' lc (JStr (js ''cat''))
             (snd (insert' lc (JStr (js ''car'')) (snd (insert' lc (JStr (js ''cat'')) t))))))) \<noteq> None \<and>
         nodeAt [js ''c'', js ''a'']
           (root (snd (delete' lc (JStr (js ''cat''))
             (snd (insert' lc (JStr (js ''car'')) (snd (insert' lc (JStr (js ''cat'')) t))))))) \<noteq> None \<and>
         (\<forall>s1 s2. s1 \<noteq> [] \<and> s2 \<noteq> [] \<and> codePoints (lc s2) \<noteq> deleteKeys lc (lc s1) \<longrightarrow>
            search lc (JStr s2) (snd (delete' lc (JStr s1) t)) = search lc (JStr s2) t)"
proof -
  define cat where "cat = [js ''c'', js ''a'', js ''t'']"
  define car where "car = [js ''c'', js ''a'', js ''r'']"
  define r2 where "r2 = fst (insertWalk car (fst (insertWalk cat (root t))))"
  define t2 where "t2 = snd (insert' toLowerCaseASCII (JStr (js ''car''))
     (snd (insert' toLowerCaseASCII (JStr (js ''cat'')) t)))"
  have ne: "js ''cat'' \<noteq> []" "js ''car'' \<noteq> []" by (simp_all add: js_def)
  have pcat: "codePoints (toLowerCaseASCII (js ''cat'')) = cat"
    and pcar: "codePoints (toLowerCaseASCII (js ''car'')) = car"
    and kcat: "deleteKeys toLowerCaseASCII (toLowerCaseASCII (js ''cat'')) = cat"
    by (simp_all add: js_def toLowerCaseASCII_def deleteKeys_def isHighSurrogate_def cat_def car_def)
  have root2: "root t2 = r2"
    by (simp add: t2_def r2_def insert'_JStr ne pcat pcar)
  obtain b r3 w3 where d: "delWalk cat r2 (wordCount t2) = (b, r3, w3)"
    by (cases "delWalk cat r2 (wordCount t2)")
  have t3: "snd (delete' toLowerCaseASCII (JStr (js ''cat'')) t2) = \<lparr> root = r3, wordCount = w3 \<rparr>"
    using d by (simp add: delete'_JStr ne kcat root2)
  have "car \<noteq> cat" by (simp add: car_def cat_def js_def)
  from searchWalk_delWalk_other [OF d this] have car3: "searchWalk car r3"
    by (simp add: r2_def searchWalk_insertWalk)
  from searchWalk_delWalk [OF d] have cat3: "\<not> searchWalk cat r3" by simp
  from car3 have "searchWalk ([js ''c''] @ [js ''a'', js ''r'']) r3"
    and "searchWalk ([js ''c'', js ''a''] @ [js ''r'']) r3" by (simp_all add: car_def)
  then have kept: "nodeAt [js ''c''] r3 \<noteq> None" "nodeAt [js ''c'', js ''a''] r3 \<noteq> None"
    by (blast dest: nodeAt_of_searchWalk)+
  have "snd (delete' lc (JStr (js ''cat''))
             (snd (insert' lc (JStr (js ''car'')) (snd (insert' lc (JStr (js ''cat'')) t))))) =
        \<lparr> root = r3, wordCount = w3 \<rparr>"
    using assms by (simp add: operations_ascii ascii_js t3 [unfolded t2_def])
  moreover have "search lc (JStr (js ''car'')) \<lparr> root = r3, wordCount = w3 \<rparr> = True"
    "search lc (JStr (js ''cat'')) \<lparr> root = r3, wordCount = w3 \<rparr> = False"
    using assms car3 cat3 by (simp_all add: operations_ascii ascii_js search_JStr ne pcat pcar)
  ultimately show ?thesis using kept delete'_other_word [of _ _ lc t] by simp
qed

theorem shared_prefix_kept_witness:
  "lowersASCII toLowerCaseASCII \<and>
   search toLowerCaseASCII (JStr (js ''car''))
     (snd (delete' toLowerCaseASCII (JStr (js ''cat''))
       (snd (insert' toLowerCaseASCII (JStr (js ''car''))
         (snd (insert' toLowerCaseASCII (JStr (js ''cat'')) newTrie)))))) = True \<and>
   nodeAt [js ''c'', js ''a'']
     (root (snd (delete' toLowerCaseASCII (JStr (js ''cat''))
       (snd (insert' toLowerCaseASCII (JStr (js ''car''))
         (snd (insert' toLowerCaseASCII (JStr (js ''cat'')) newTrie))))))) \<noteq> None"
  using shared_prefix_kept [OF lowersASCII_toLowerCaseASCII, of newTrie]
        lowersASCII_toLowerCaseASCII
  by blast

section \<open>Invalid input and the value returned\<close>

text \<open>
  C4. Given an absent (null, undefined), empty or non-string word, insert and delete raise
  InvalidInput and leave the trie, word count and nodes, as it was before the call.
\<close>

theorem invalid_input_rejected:
  "(case w of JStr s \<Rightarrow> s = [] | _ \<Rightarrow> True) \<Longrightarrow>
   insert' lc w t = (Inl InvalidInput, t) \<and> delete' lc w t = (Inl InvalidInput, t)"
  by (cases w) (simp_all add: insert'_def delete'_def)

theorem invalid_input_rejected_witness:
  "(case JStr [] of JStr s \<Rightarrow> s = [] | _ \<Rightarrow> True) \<and>
   insert' toLowerCaseASCII (JStr []) newTrie = (Inl InvalidInput, newTrie) \<and>
   delete' toLowerCaseASCII JUndefined newTrie = (Inl InvalidInput, newTrie) \<and>
   insert' toLowerCaseASCII JNull newTrie = (Inl InvalidInput, newTrie)"
  using invalid_input_rejected [of "JStr []" toLowerCaseASCII newTrie]
        invalid_input_rejected [of JUndefined toLowerCaseASCII newTrie]
        invalid_input_rejected [of JNull toLowerCaseASCII newTrie]
  by simp

text \<open>
  C10. A call of insert or delete that does not throw returns true, in both
  implementations, whether or not the trie changed: insert of a word already present
  returns true, and delete of a word that is not stored under the keys it follows returns
  true and leaves the trie as it was. The value returned says nothing about the change.
\<close>

theorem success_marker:
  "fst (insert' lc w t) \<in> {Inl InvalidInput, Inr True} \<and>
   fst (delete' lc w t) \<in> {Inl InvalidInput, Inr True} \<and>
   fst (insert_js s t) = True \<and>
   fst (delete_js s t) = True \<and>
   (s \<noteq> [] \<longrightarrow> fst (insert' lc (JStr s) t) = Inr True \<and> fst (delete' lc (JStr s) t) = Inr True) \<and>
   (s \<noteq> [] \<and> \<not> searchWalk (deleteKeys lc (lc s)) (root t) \<longrightarrow>
      delete' lc (JStr s) t = (Inr True, t)) \<and>
   (\<not> searchWalk (map (\<lambda>u. [u]) s) (root t) \<longrightarrow> delete_js s t = (True, t))"
proof -
  have valid: "fst (insert' lc (JStr s) t) = Inr True \<and> fst (delete' lc (JStr s) t) = Inr True"
    if "s \<noteq> []" for s
    using that by (simp add: insert'_JStr delete'_JStr split_beta)
  have ins: "fst (insert' lc w t) \<in> {Inl InvalidInput, Inr True}"
  proof (cases "\<exists>s. w = JStr s \<and> s \<noteq> []")
    case True
    with valid show ?thesis by auto
  next
    case False
    then show ?thesis by (cases w) (auto simp: insert'_def)
  qed
  have del: "fst (delete' lc w t) \<in> {Inl InvalidInput, Inr True}"
  proof (cases "\<exists>s. w = JStr s \<and> s \<noteq> []")
    case True
    with valid show ?thesis by auto
  next
    case False
    then show ?thesis by (cases w) (auto simp: delete'_def)
  qed
  have js: "fst (insert_js s t) = True" "fst (delete_js s t) = True"
    by (simp_all add: insert_js_eq delete_js_eq split_beta)
  have absent: "delete' lc (JStr s) t = (Inr True, t)"
    if "s \<noteq> []" "\<not> searchWalk (deleteKeys lc (lc s)) (root t)"
    using that by (simp add: delete'_JStr delWalk_absent)
  have absent_js: "delete_js s t = (True, t)" if "\<not> searchWalk (map (\<lambda>u. [u]) s) (root t)"
    using that by (simp add: delete_js_eq delWalk_absent)
  from valid ins del js absent absent_js show ?thesis by blast
qed

theorem success_marker_witness:
  "js ''zzz'' \<noteq> [] \<and>
   \<not> searchWalk (deleteKeys toLowerCaseASCII (toLowerCaseASCII (js ''zzz''))) (root newTrie) \<and>
   delete' toLowerCaseASCII (JStr (js ''zzz'')) newTrie = (Inr True, newTrie) \<and>
   delete_js (js ''zzz'') newTrie = (True, newTrie) \<and>
   fst (insert' toLowerCaseASCII (JStr (js ''zzz'')) newTrie) = Inr True"
proof -
  have ne: "js ''zzz'' \<noteq> []" by (simp add: js_def)
  have a: "\<not> searchWalk (deleteKeys toLowerCaseASCII (toLowerCaseASCII (js ''zzz''))) (root newTrie)"
    by (simp add: js_def deleteKeys_def toLowerCaseASCII_def newTrie_def newTrieNode_def)
  have b: "\<not> searchWalk (map (\<lambda>u. [u]) (js ''zzz'')) (root newTrie)"
    by (simp add: js_def newTrie_def newTrieNode_def)
  from success_marker [of toLowerCaseASCII "JStr (js ''zzz'')" newTrie "js ''zzz''"] ne a b
  show ?thesis by blast
qed

section \<open>Runs keep the tree free of orphans\<close>

lemma noOrphans_callApp:
  assumes "noOrphans (root t)"
  shows "noOrphans (root (snd (callApp lc c t)))"
proof (cases c)
  case (Insert w)
  show ?thesis
  proof (cases "\<exists>s. w = JStr s \<and> s \<noteq> []")
    case True
    then obtain s where "w = JStr s" "s \<noteq> []" by blast
    with assms noOrphans_insertWalk [OF assms, of "codePoints (lc s)"] show ?thesis
      by (simp add: Insert insert'_JStr)
  next
    case False
    then have "insert' lc w t = (Inl InvalidInput, t)"
      by (cases w) (auto simp: insert'_def)
    with assms show ?thesis by (simp add: Insert)
  qed
next
  case (Search w)
  with assms show ?thesis by simp
next
  case (Delete w)
  show ?thesis
  proof (cases "\<exists>s. w = JStr s \<and> s \<noteq> []")
    case True
    then obtain s where w: "w = JStr s" "s \<noteq> []" by blast
    obtain b r wc where d: "delWalk (deleteKeys lc (lc s)) (root t) (wordCount t) = (b, r, wc)"
      by (cases "delWalk (deleteKeys lc (lc s)) (root t) (wordCount t)")
    from noOrphans_delWalk [OF d assms] d w show ?thesis
      by (simp add: Delete delete'_JStr)
  next
    case False
    then have "delete' lc w t = (Inl InvalidInput, t)"
      by (cases w) (auto simp: delete'_def)
    with assms show ?thesis by (simp add: Delete)
  qed
qed

lemma noOrphans_runApp:
  "noOrphans (root t) \<Longrightarrow> noOrphans (root (snd (runApp lc calls t)))"
proof (induction calls arbitrary: t)
  case Nil
  then show ?case by simp
next
  case (Cons c calls)
  from Cons.IH [OF noOrphans_callApp [OF Cons.prems, of lc c]] show ?case
    by (simp add: split_beta)
qed

text \<open>
  C3. After any sequence of insert, search and delete calls on a new trie, no node below
  the root is both childless and not an end of word. Inserting "cat" into a new trie and
  deleting it again leaves the trie as new, the root alone; the root stays although
  deleteRecursive reports it as childless and not an end of word.
\<close>

theorem no_orphans:
  "noOrphans (root (snd (runApp lc calls newTrie))) \<and>
   (lowersASCII lc \<longrightarrow>
      snd (runApp lc [Insert (JStr (js ''cat'')), Delete (JStr (js ''cat''))] newTrie) = newTrie \<and>
      fst (deleteRecursive lc (root (snd (insert' lc (JStr (js ''cat'')) newTrie)))
             (lc (js ''cat'')) 0 1) = Inr True)"
proof -
  have "noOrphans (root newTrie)" by (simp add: newTrie_def newTrieNode_def)
  then have inv: "noOrphans (root (snd (runApp lc calls newTrie)))" by (rule noOrphans_runApp)
  have run: "snd (runApp toLowerCaseASCII
      [Insert (JStr (js ''cat'')), Delete (JStr (js ''cat''))] newTrie) = newTrie"
    by code_simp
  have flag: "fst (deleteRecursive toLowerCaseASCII
      (root (snd (insert' toLowerCaseASCII (JStr (js ''cat'')) newTrie)))
      (toLowerCaseASCII (js ''cat'')) 0 1) = Inr True"
    by code_simp
  have "snd (runApp lc [Insert (JStr (js ''cat'')), Delete (JStr (js ''cat''))] newTrie) = newTrie"
    if "lowersASCII lc"
    using run that by (simp add: operations_ascii ascii_js split_beta)
  moreover have "fst (deleteRecursive lc (root (snd (insert' lc (JStr (js ''cat'')) newTrie)))
             (lc (js ''cat'')) 0 1) = Inr True" if l: "lowersASCII lc"
  proof -
    have eq: "lc (js ''cat'') = toLowerCaseASCII (js ''cat'')"
      using l by (simp add: lowersASCII_def ascii_js)
    have keys: "deleteKeys lc (toLowerCaseASCII (js ''cat'')) =
        deleteKeys toLowerCaseASCII (toLowerCaseASCII (js ''cat''))"
      using l by (intro deleteKeys_ascii toLowerCaseASCII_ascii ascii_js)
    from flag show ?thesis
      by (simp add: operations_ascii [OF l] ascii_js eq deleteRecursive_delWalk keys)
  qed
  ultimately show ?thesis using inv by blast
qed

theorem no_orphans_witness:
  "lowersASCII toLowerCaseASCII \<and>
   noOrphans (root (snd (runApp toLowerCaseASCII
     [Insert (JStr (js ''cat'')), Insert (JStr (js ''car'')), Search (JStr (js ''ca'')),
      Delete (JStr (js ''cat'')), Insert JNull] newTrie))) \<and>
   snd (runApp toLowerCaseASCII
     [Insert (JStr (js ''cat'')), Delete (JStr (js ''cat''))] newTrie) = newTrie"
  using no_orphans [of toLowerCaseASCII
     "[Insert (JStr (js ''cat'')), Insert (JStr (js ''car'')), Search (JStr (js ''ca'')),
       Delete (JStr (js ''cat'')), Insert JNull]"]
     lowersASCII_toLowerCaseASCII
  by blast

section \<open>The export\<close>

lemma convertToD3Format_js_eq:
  "convertToD3Format_js n parentName depth = convertToD3Format n parentName depth"
proof (induction n parentName depth rule: convertToD3Format.induct)
  case (1 v e f kids parentName depth)
  define nodeName where "nodeName = parentName @ (if v = [] then js ''root'' else v)"
  have "convertToD3Format_js (snd x) nodeName (depth + 1) =
        convertToD3Format (snd x) nodeName (depth + 1)" if "x \<in> set kids" for x
    using "1" [OF nodeName_def that, of "fst x" "snd x"] by simp
  then show ?case by (simp add: Let_def split_beta nodeName_def)
qed

lemma convertToD3Format_unfold:
  "convertToD3Format n parentName depth =
     D3Node (parentName @ (if value' n = [] then js ''root'' else value' n))
       (value' n) (isEndOfWord n) (frequency n) depth
       (if children n = [] then None
        else Some (map (\<lambda>p. convertToD3Format (snd p)
                     (parentName @ (if value' n = [] then js ''root'' else value' n)) (depth + 1))
                   (children n)))"
  by (cases n) (simp add: Let_def split_beta)

text \<open>
  C8. The export of the trie holding only "ab" is a root record (depth 0, name "root")
  with one child, the record of 'a' at depth 1, not an end of word, whose one child is the
  record of 'b' at depth 2, an end of word of frequency 1 without a children field. The
  name of a record is the name of its parent followed by its own character, the root's
  being the label "root": the names are "root", "roota" and "rootab". A record has no
  children field exactly when its node has no children.
\<close>

theorem export_shape:
  assumes "lowersASCII lc"
  shows "getD3Data (snd (insert' lc (JStr (js ''ab'')) newTrie)) =
           D3Node (js ''root'') [] False 0 0
             (Some [D3Node (js ''roota'') (js ''a'') False 0 1
               (Some [D3Node (js ''rootab'') (js ''b'') True 1 2 None])]) \<and>
         d3name (convertToD3Format n parentName depth) =
           parentName @ (if value' n = [] then js ''root'' else value' n) \<and>
         d3children (convertToD3Format n parentName depth) =
           (if children n = [] then None
            else Some (map (\<lambda>p. convertToD3Format (snd p)
                         (d3name (convertToD3Format n parentName depth)) (depth + 1))
                       (children n)))"
proof -
  have "getD3Data (snd (insert' toLowerCaseASCII (JStr (js ''ab'')) newTrie)) =
           D3Node (js ''root'') [] False 0 0
             (Some [D3Node (js ''roota'') (js ''a'') False 0 1
               (Some [D3Node (js ''rootab'') (js ''b'') True 1 2 None])])"
    by code_simp
  with assms have "getD3Data (snd (insert' lc (JStr (js ''ab'')) newTrie)) =
           D3Node (js ''root'') [] False 0 0
             (Some [D3Node (js ''roota'') (js ''a'') False 0 1
               (Some [D3Node (js ''rootab'') (js ''b'') True 1 2 None])])"
    by (simp add: operations_ascii ascii_js)
  moreover have "d3name (convertToD3Format n parentName depth) =
           parentName @ (if value' n = [] then js ''root'' else value' n)"
    by (subst convertToD3Format_unfold) simp
  moreover have "d3children (convertToD3Format n parentName depth) =
           (if children n = [] then None
            else Some (map (\<lambda>p. convertToD3Format (snd p)
                         (d3name (convertToD3Format n parentName depth)) (depth + 1))
                       (children n)))"
    by (subst convertToD3Format_unfold, subst (2) convertToD3Format_unfold) simp
  ultimately show ?thesis by blast
qed

theorem export_shape_witness:
  "lowersASCII toLowerCaseASCII \<and>
   getD3Data (snd (insert' toLowerCaseASCII (JStr (js ''ab'')) newTrie)) =
     D3Node (js ''root'') [] False 0 0
       (Some [D3Node (js ''roota'') (js ''a'') False 0 1
         (Some [D3Node (js ''rootab'') (js ''b'') True 1 2 None])])"
  using export_shape [OF lowersASCII_toLowerCaseASCII] lowersASCII_toLowerCaseASCII
  by blast

text \<open>
  In the export of the trie holding "ab", the record of 'a' is named "roota": the path
  from the root alone would be "a".
\<close>

theorem export_name_not_path:
  "map d3name
     (case d3children (getD3Data (snd (insert' toLowerCaseASCII (JStr (js ''ab'')) newTrie))) of
        None \<Rightarrow> [] | Some cs \<Rightarrow> cs) = [js ''roota''] \<and>
   js ''roota'' \<noteq> js ''a''"
  by code_simp

section \<open>The two implementations\<close>

lemma deleteKeys_alreadyLower:
  "alreadyLower lc s \<Longrightarrow> deleteKeys lc (lc s) = map (\<lambda>u. [u]) s"
  by (simp add: alreadyLower_def deleteKeys_def)

lemma callApp_call_js:
  assumes "arg c \<noteq> []" and "alreadyLower lc (arg c)"
  shows "callApp lc (map_call JStr c) t = (Inr (fst (call_js c t)), snd (call_js c t))"
proof (cases c)
  case (Insert s)
  with assms have "s \<noteq> []" "lc s = s" by (simp_all add: alreadyLower_def)
  then show ?thesis by (simp add: Insert insert'_JStr insert_js_eq)
next
  case (Search s)
  with assms have "s \<noteq> []" "lc s = s" by (simp_all add: alreadyLower_def)
  then show ?thesis by (simp add: Search search_JStr search_js_def)
next
  case (Delete s)
  with assms have "s \<noteq> []" "alreadyLower lc s" by simp_all
  then show ?thesis
    by (simp add: Delete delete'_JStr delete_js_eq deleteKeys_alreadyLower split_beta)
qed

lemma runApp_run_js:
  "\<forall>c \<in> set calls. arg c \<noteq> [] \<and> alreadyLower lc (arg c) \<Longrightarrow>
   runApp lc (map (map_call JStr) calls) t =
     (map Inr (fst (run_js calls t)), snd (run_js calls t))"
proof (induction calls arbitrary: t)
  case Nil
  show ?case by simp
next
  case (Cons c calls)
  then have c: "arg c \<noteq> []" "alreadyLower lc (arg c)"
    and rest: "\<forall>c \<in> set calls. arg c \<noteq> [] \<and> alreadyLower lc (arg c)" by simp_all
  show ?case
    by (simp add: callApp_call_js [OF c] Cons.IH [OF rest] split_beta)
qed

text \<open>
  C9. On valid inputs the Trie of the application file and the Trie of the component
  module behave alike: for every sequence of insert, search and delete calls on non-empty,
  already lowercase words (lowercasing changes neither the word nor any of its units),
  started on new tries, both give the same results call by call, the same word count, the
  same tree and the same exported hierarchy.
\<close>

theorem implementations_agree:
  assumes "\<forall>c \<in> set calls. arg c \<noteq> [] \<and> alreadyLower lc (arg c)"
  shows "fst (runApp lc (map (map_call JStr) calls) newTrie) = map Inr (fst (run_js calls newTrie)) \<and>
         wordCount (snd (runApp lc (map (map_call JStr) calls) newTrie)) =
           wordCount (snd (run_js calls newTrie)) \<and>
         root (snd (runApp lc (map (map_call JStr) calls) newTrie)) =
           root (snd (run_js calls newTrie)) \<and>
         getD3Data (snd (runApp lc (map (map_call JStr) calls) newTrie)) =
           getD3Data_js (snd (run_js calls newTrie))"
  by (simp add: runApp_run_js [OF assms] getD3Data_def getD3Data_js_def convertToD3Format_js_eq)

theorem implementations_agree_witness:
  "list_all (\<lambda>c. arg c \<noteq> [] \<and> alreadyLower toLowerCaseASCII (arg c))
     [Insert (js ''cat''), Insert (js ''car''), Search (js ''car''),
      Delete (js ''cat''), Search (js ''cat'')] \<and>
   fst (runApp toLowerCaseASCII
         (map (map_call JStr) [Insert (js ''cat''), Insert (js ''car''), Search (js ''car''),
                Delete (js ''cat''), Search (js ''cat'')]) newTrie) =
     map Inr (fst (run_js [Insert (js ''cat''), Insert (js ''car''), Search (js ''car''),
                Delete (js ''cat''), Search (js ''cat'')] newTrie)) \<and>
   fst (run_js [Insert (js ''cat''), Insert (js ''car''), Search (js ''car''),
                Delete (js ''cat''), Search (js ''cat'')] newTrie) =
     [True, True, True, True, False]"
proof -
  have h: "\<forall>c \<in> set [Insert (js ''cat''), Insert (js ''car''), Search (js ''car''),
                Delete (js ''cat''), Search (js ''cat'')].
      arg c \<noteq> [] \<and> alreadyLower toLowerCaseASCII (arg c)"
    by (simp add: js_def alreadyLower_def toLowerCaseASCII_def)
  have r: "fst (run_js [Insert (js ''cat''), Insert (js ''car''), Search (js ''car''),
                Delete (js ''cat''), Search (js ''cat'')] newTrie) =
     [True, True, True, True, False]"
    by code_simp
  from h have h': "list_all (\<lambda>c. arg c \<noteq> [] \<and> alreadyLower toLowerCaseASCII (arg c))
     [Insert (js ''cat''), Insert (js ''car''), Search (js ''car''),
      Delete (js ''cat''), Search (js ''cat'')]"
    by (simp only: list_all_iff)
  from implementations_agree [OF h] h' r show ?thesis by blast
qed

end
